theory Spec2Isabelle
  imports Main
begin

section \<open>Strings as the scripts use them\<close>

text \<open>
  Python strings are modelled as \<^typ>\<open>string\<close>. A slice \<open>text[a:b]\<close> with
  \<open>0 \<le> a\<close> and \<open>0 \<le> b\<close> is \<open>slice text a b\<close>; it is empty when \<open>b \<le> a\<close> and
  is cut at the end of the text, as in Python.
\<close>

definition slice :: "'a list \<Rightarrow> nat \<Rightarrow> nat \<Rightarrow> 'a list" where
  "slice text a b = take (b - a) (drop a text)"

text \<open>
  \<open>str.isspace\<close> on the code points below 256: tab to carriage return, the four
  separators 28 to 31, the space, NEL (133) and the no-break space (160).
\<close>

definition is_space :: "char \<Rightarrow> bool" where
  "is_space c =
     (let n = (of_char c :: nat)
      in (9 \<le> n \<and> n \<le> 13) \<or> (28 \<le> n \<and> n \<le> 32) \<or> n = 133 \<or> n = 160)"

definition lstrip :: "string \<Rightarrow> string" where
  "lstrip s = dropWhile is_space s"

definition rstrip :: "string \<Rightarrow> string" where
  "rstrip s = rev (dropWhile is_space (rev s))"

definition strip :: "string \<Rightarrow> string" where
  "strip s = lstrip (rstrip s)"

section \<open>Segment Preprocessor: \<open>preprocess_text\<close>\<close>

datatype segment_type = Text | Code

type_synonym segment = "segment_type \<times> string"

definition fence :: string where
  "fence = ''```''"

text \<open>The index of the first fence marker in a string, if there is one.\<close>

fun find_fence :: "string \<Rightarrow> nat option" where
  "find_fence [] = None"
| "find_fence (c # cs) =
     (if take 3 (c # cs) = fence then Some 0 else map_option Suc (find_fence cs))"

lemma find_fence_bound: "find_fence s = Some i \<Longrightarrow> i + 3 \<le> length s"
proof (induction s arbitrary: i)
  case Nil
  then show ?case by simp
next
  case (Cons c cs)
  show ?case
  proof (cases "take 3 (c # cs) = fence")
    case True
    then have "length (take 3 (c # cs)) = 3" by (simp add: fence_def)
    then have "3 \<le> length (c # cs)" by (simp add: min_def split: if_splits)
    with True Cons.prems show ?thesis by simp
  next
    case False
    with Cons.prems obtain j where "find_fence cs = Some j" "i = Suc j" by auto
    with Cons.IH show ?thesis by simp
  qed
qed

text \<open>
  \<open>code_pattern.finditer(text)\<close> for the pattern \<open>```[\s\S]*?```\<close>: the matches
  from left to right, each as (start, end). A match opens at the first fence marker
  and, the middle part being lazy, closes at the first fence marker that starts at
  least three characters later. When the opening marker has no closing one, no later
  position has one either, and the scan ends.
\<close>

function code_pattern_finditer :: "nat \<Rightarrow> string \<Rightarrow> (nat \<times> nat) list" where
  "code_pattern_finditer pos text =
     (case find_fence (drop pos text) of
        None \<Rightarrow> []
      | Some i \<Rightarrow>
          (case find_fence (drop (pos + i + 3) text) of
             None \<Rightarrow> []
           | Some j \<Rightarrow>
               (pos + i, pos + i + 3 + j + 3) # code_pattern_finditer (pos + i + 3 + j + 3) text))"
  by pat_completeness auto
termination
proof (relation "measure (\<lambda>(pos, text). length text - pos)")
  show "wf (measure (\<lambda>(pos, text). length text - pos))" by simp
next
  fix pos :: nat and doc :: string and i j
  assume a: "find_fence (drop pos doc) = Some i"
  from find_fence_bound [OF a] have "pos + i + 3 \<le> length doc" by simp
  then show "((pos + i + 3 + j + 3, doc), (pos, doc))
      \<in> measure (\<lambda>(pos, text). length text - pos)" by simp
qed

declare code_pattern_finditer.simps [simp del]

text \<open>The loop of \<open>preprocess_text\<close> over the matches; the state is (segments, last_idx).\<close>

fun preprocess_loop :: "string \<Rightarrow> (nat \<times> nat) list \<Rightarrow> segment list \<times> nat \<Rightarrow> segment list \<times> nat" where
  "preprocess_loop text [] (segments, last_idx) = (segments, last_idx)"
| "preprocess_loop text ((m_start, m_end) # ms) (segments, last_idx) =
     preprocess_loop text ms
       ((if last_idx < m_start then segments @ [(Text, slice text last_idx m_start)] else segments)
          @ [(Code, slice text m_start m_end)],
        m_end)"

definition preprocess_text :: "string \<Rightarrow> segment list" where
  "preprocess_text text =
     (case preprocess_loop text (code_pattern_finditer 0 text) ([], 0) of
        (segments, last_idx) \<Rightarrow>
          if last_idx < length text then segments @ [(Text, drop last_idx text)] else segments)"

section \<open>Sentence Splitter: \<open>split_into_sentences\<close>\<close>

text \<open>\<open>sub_text.rfind(' ')\<close>: the index of the last space, \<open>None\<close> for Python's \<open>-1\<close>.\<close>

fun rfind_space :: "string \<Rightarrow> nat option" where
  "rfind_space [] = None"
| "rfind_space (c # cs) =
     (case rfind_space cs of
        Some i \<Rightarrow> Some (Suc i)
      | None \<Rightarrow> if c = CHR '' '' then Some 0 else None)"

text \<open>
  The value of \<open>current_end\<close> when the window that starts at \<open>current_start\<close> is
  handed to the model: the window is cut at \<open>max_length\<close> characters or at the end
  of the text, and a window that stops before the end of the text is moved back to
  its last space when it has one.
\<close>

definition window_end :: "string \<Rightarrow> nat \<Rightarrow> nat \<Rightarrow> nat" where
  "window_end text max_length current_start =
     (let text_length = length text;
          current_end = min (current_start + max_length) text_length
      in if current_end < text_length then
           (case rfind_space (slice text current_start current_end) of
              Some last_space \<Rightarrow> current_start + last_space
            | None \<Rightarrow> current_end)
         else current_end)"

text \<open>
  The \<open>while\<close> loop. The sentence boundary model \<open>nlp\<close> is external; it is a
  parameter that maps a window to the texts of its sentences. The loop need not
  return: \<open>None\<close> is a run that never leaves the loop.
\<close>

partial_function (option) window_loop ::
  "(string \<Rightarrow> string list) \<Rightarrow> string \<Rightarrow> nat \<Rightarrow> nat \<Rightarrow> string list \<Rightarrow> string list option" where
  "window_loop nlp text max_length current_start sentences =
     (if current_start < length text then
        window_loop nlp text max_length (window_end text max_length current_start)
          (sentences @ map strip
             (nlp (slice text current_start (window_end text max_length current_start))))
      else Some sentences)"

declare window_loop.simps [code]

text \<open>
  \<open>nlp\<close> is a global that \<open>worker_init\<close> sets; \<open>None\<close> is the model that was never
  loaded. \<open>max_length or 1000000\<close> replaces both \<open>None\<close> and \<open>0\<close>.
\<close>

definition split_into_sentences ::
  "(string \<Rightarrow> string list) option \<Rightarrow> string \<Rightarrow> nat option \<Rightarrow> string list option" where
  "split_into_sentences nlp text max_length =
     (case nlp of
        None \<Rightarrow> Some []
      | Some model \<Rightarrow>
          window_loop model text
            (case max_length of None \<Rightarrow> 1000000 | Some m \<Rightarrow> if m = 0 then 1000000 else m)
            0 [])"

section \<open>Token Counter\<close>

text \<open>
  The tokenizer is external (a fixed subword vocabulary). It is a parameter:
  \<open>encode\<close> gives the token ids of a text or raises, \<open>decode\<close> gives the text of
  token ids. The type of the token ids is left open.
\<close>

datatype error = ValueError | FileNotFoundError

record 'tok tokenizer =
  encode :: "string \<Rightarrow> error + 'tok list"
  decode :: "'tok list \<Rightarrow> string"

section \<open>Chunk Assembler: \<open>chunk_segments\<close>\<close>

text \<open>A chunk is the dictionary with the keys \<open>text\<close> and \<open>token_count\<close>.\<close>

record chunk =
  chunk_text :: string
  token_count :: nat

record chunker_state =
  chunks :: "chunk list"
  current_chunk :: string
  current_tokens :: nat
  overlap_text :: string

definition initial_state :: chunker_state where
  "initial_state = \<lparr>chunks = [], current_chunk = [], current_tokens = 0, overlap_text = []\<rparr>"

text \<open>\<open>xs[-k:]\<close> for \<open>k \<ge> 0\<close>; \<open>xs[-0:]\<close> is the whole list.\<close>

definition last_tokens :: "nat \<Rightarrow> 'a list \<Rightarrow> 'a list" where
  "last_tokens k xs = (if k = 0 then xs else drop (length xs - k) xs)"

definition emit :: "chunker_state \<Rightarrow> chunk" where
  "emit st = \<lparr>chunk_text = strip (current_chunk st), token_count = current_tokens st\<rparr>"

text \<open>\<open>len(tokenizer.encode(s))\<close>.\<close>

definition count_tokens :: "'tok tokenizer \<Rightarrow> string \<Rightarrow> error + nat" where
  "count_tokens tok s = (case encode tok s of Inl e \<Rightarrow> Inl e | Inr encoded \<Rightarrow> Inr (length encoded))"

text \<open>The body of the loop for a segment of type \<open>code\<close>.\<close>

definition code_step :: "'tok tokenizer \<Rightarrow> int \<Rightarrow> string \<Rightarrow> chunker_state \<Rightarrow> error + chunker_state" where
  "code_step tok max_tokens segment st =
     (case count_tokens tok segment of
        Inl e \<Rightarrow> Inl e
      | Inr segment_tokens \<Rightarrow>
          (let st1 = (if int (current_tokens st + segment_tokens) > max_tokens \<and> current_chunk st \<noteq> []
                      then st\<lparr>chunks := chunks st @ [emit st], current_chunk := [], current_tokens := 0\<rparr>
                      else st)
           in Inr (st1\<lparr>current_chunk := current_chunk st1 @ [CHR 0x0A] @ segment,
                        current_tokens := current_tokens st1 + segment_tokens\<rparr>)))"

text \<open>The overlap text that the sentence branch computes from the chunk it flushes.\<close>

definition compute_overlap :: "'tok tokenizer \<Rightarrow> int \<Rightarrow> string \<Rightarrow> error + string" where
  "compute_overlap tok overlap_tokens current =
     (if overlap_tokens > 0 then
        (case encode tok current of
           Inl e \<Rightarrow> Inl e
         | Inr encoded_current \<Rightarrow>
             Inr (decode tok
               (last_tokens (nat (min overlap_tokens (int (length encoded_current))))
                  encoded_current)))
      else Inr [])"

text \<open>The flush of the sentence branch.\<close>

definition flush_with_overlap :: "'tok tokenizer \<Rightarrow> int \<Rightarrow> chunker_state \<Rightarrow> error + chunker_state" where
  "flush_with_overlap tok overlap_tokens st =
     (case compute_overlap tok overlap_tokens (current_chunk st) of
        Inl e \<Rightarrow> Inl e
      | Inr ov \<Rightarrow>
          (case count_tokens tok ov of
             Inl e \<Rightarrow> Inl e
           | Inr n \<Rightarrow>
               Inr (st\<lparr>overlap_text := ov, chunks := chunks st @ [emit st],
                        current_chunk := ov, current_tokens := n\<rparr>)))"

text \<open>The body of the inner loop for one sentence.\<close>

definition sentence_step ::
  "'tok tokenizer \<Rightarrow> int \<Rightarrow> int \<Rightarrow> string \<Rightarrow> chunker_state \<Rightarrow> error + chunker_state" where
  "sentence_step tok max_tokens overlap_tokens sentence st =
     (case count_tokens tok sentence of
        Inl e \<Rightarrow> Inl e
      | Inr sentence_tokens \<Rightarrow>
          (case (if int (current_tokens st + sentence_tokens) > max_tokens \<and> current_chunk st \<noteq> []
                 then flush_with_overlap tok overlap_tokens st else Inr st) of
             Inl e \<Rightarrow> Inl e
           | Inr st1 \<Rightarrow>
               Inr (st1\<lparr>current_chunk := current_chunk st1 @ '' '' @ sentence,
                        current_tokens := current_tokens st1 + sentence_tokens\<rparr>)))"

fun sentences_loop ::
  "'tok tokenizer \<Rightarrow> int \<Rightarrow> int \<Rightarrow> string list \<Rightarrow> chunker_state \<Rightarrow> error + chunker_state" where
  "sentences_loop tok max_tokens overlap_tokens [] st = Inr st"
| "sentences_loop tok max_tokens overlap_tokens (sentence # rest) st =
     (case sentence_step tok max_tokens overlap_tokens sentence st of
        Inl e \<Rightarrow> Inl e
      | Inr st1 \<Rightarrow> sentences_loop tok max_tokens overlap_tokens rest st1)"

text \<open>
  The outer loop. The result is \<open>None\<close> when a call of \<open>split_into_sentences\<close>
  never returns, \<open>Some (Inl e)\<close> when the tokenizer raises, \<open>Some (Inr st)\<close> otherwise.
\<close>

fun segments_loop ::
  "(string \<Rightarrow> string list) option \<Rightarrow> 'tok tokenizer \<Rightarrow> int \<Rightarrow> int \<Rightarrow> segment list \<Rightarrow>
   chunker_state \<Rightarrow> (error + chunker_state) option" where
  "segments_loop nlp tok max_tokens overlap_tokens [] st = Some (Inr st)"
| "segments_loop nlp tok max_tokens overlap_tokens ((segment_type, segment) # rest) st =
     (if segment_type = Code then
        (case code_step tok max_tokens segment st of
           Inl e \<Rightarrow> Some (Inl e)
         | Inr st1 \<Rightarrow> segments_loop nlp tok max_tokens overlap_tokens rest st1)
      else
        (case split_into_sentences nlp segment None of
           None \<Rightarrow> None
         | Some sentences \<Rightarrow>
             (case sentences_loop tok max_tokens overlap_tokens sentences st of
                Inl e \<Rightarrow> Some (Inl e)
              | Inr st1 \<Rightarrow> segments_loop nlp tok max_tokens overlap_tokens rest st1)))"

definition chunk_segments ::
  "(string \<Rightarrow> string list) option \<Rightarrow> 'tok tokenizer \<Rightarrow> segment list \<Rightarrow> int \<Rightarrow> int \<Rightarrow>
   (error + chunk list) option" where
  "chunk_segments nlp tok segments max_tokens overlap_tokens =
     (case segments_loop nlp tok max_tokens overlap_tokens segments initial_state of
        None \<Rightarrow> None
      | Some (Inl e) \<Rightarrow> Some (Inl e)
      | Some (Inr st) \<Rightarrow>
          Some (Inr (if strip (current_chunk st) \<noteq> [] then chunks st @ [emit st] else chunks st)))"

text \<open>
  Two stand-ins for the external parts, used at concrete inputs: a tokenizer with one
  token for each character, and a boundary model that takes its whole input as one
  sentence.
\<close>

definition char_tokenizer :: "char tokenizer" where
  "char_tokenizer = \<lparr>encode = (\<lambda>s. Inr s), decode = (\<lambda>ts. ts)\<rparr>"

definition whole_sentence :: "string \<Rightarrow> string list" where
  "whole_sentence s = [s]"

section \<open>Losslessness of the preprocessor\<close>

text \<open>Matches that follow one another from \<open>lst\<close> on and stay inside a text of length \<open>n\<close>.\<close>

fun ordered_matches :: "nat \<Rightarrow> nat \<Rightarrow> (nat \<times> nat) list \<Rightarrow> bool" where
  "ordered_matches n lst [] = (lst \<le> n)"
| "ordered_matches n lst ((s, e) # ms) = (lst \<le> s \<and> s \<le> e \<and> e \<le> n \<and> ordered_matches n e ms)"

lemma finditer_ordered:
  "pos \<le> length text \<Longrightarrow> ordered_matches (length text) pos (code_pattern_finditer pos text)"
proof (induction pos "text" rule: code_pattern_finditer.induct)
  case (1 pos doc)
  show ?case
  proof (cases "find_fence (drop pos doc)")
    case None
    with "1.prems" show ?thesis by (simp add: code_pattern_finditer.simps [of pos doc])
  next
    case (Some i)
    note si = Some
    from find_fence_bound [OF si] have b1: "pos + i + 3 \<le> length doc" by simp
    show ?thesis
    proof (cases "find_fence (drop (pos + i + 3) doc)")
      case None
      with si "1.prems" show ?thesis by (simp add: code_pattern_finditer.simps [of pos doc])
    next
      case (Some j)
      from find_fence_bound [OF Some] b1 have b2: "pos + i + 3 + j + 3 \<le> length doc" by simp
      from "1.IH" [OF si Some b2]
      have "ordered_matches (length doc) (pos + i + 3 + j + 3)
              (code_pattern_finditer (pos + i + 3 + j + 3) doc)" .
      with si Some b2 show ?thesis by (simp add: code_pattern_finditer.simps [of pos doc])
    qed
  qed
qed

lemma slice_append_slice:
  "a \<le> b \<Longrightarrow> b \<le> c \<Longrightarrow> slice text a b @ slice text b c = slice text a c"
proof -
  assume ab: "a \<le> b" and bc: "b \<le> c"
  have "take (b - a) (drop a text) @ take (c - b) (drop (b - a) (drop a text))
          = take ((b - a) + (c - b)) (drop a text)"
    by (simp add: take_add)
  moreover from ab have "drop (b - a) (drop a text) = drop b text" by simp
  moreover from ab bc have "(b - a) + (c - b) = c - a" by simp
  ultimately show ?thesis by (simp add: slice_def)
qed

lemma slice_same: "slice text a a = []"
  by (simp add: slice_def)

lemma preprocess_loop_concat:
  "ordered_matches n lst ms \<Longrightarrow> n = length text \<Longrightarrow> l0 \<le> lst \<Longrightarrow>
   concat (map snd segs) = slice text l0 lst \<Longrightarrow>
   preprocess_loop text ms (segs, lst) = (segs', lst') \<Longrightarrow>
   concat (map snd segs') = slice text l0 lst' \<and> lst \<le> lst' \<and> lst' \<le> n"
proof (induction ms arbitrary: segs lst)
  case Nil
  then show ?case by simp
next
  case (Cons m ms)
  obtain s e where m: "m = (s, e)" by (cases m)
  from Cons.prems(1) m have o: "lst \<le> s" "s \<le> e" "e \<le> n" "ordered_matches n e ms" by simp_all
  let ?segs = "(if lst < s then segs @ [(Text, slice text lst s)] else segs) @ [(Code, slice text s e)]"
  have "concat (map snd ?segs) = slice text l0 lst @ slice text lst s @ slice text s e"
  proof (cases "lst < s")
    case True
    with Cons.prems(4) show ?thesis by simp
  next
    case False
    with o(1) have "lst = s" by simp
    with Cons.prems(4) show ?thesis by (simp add: slice_same)
  qed
  also have "\<dots> = slice text l0 e"
    using Cons.prems(3) o by (simp add: slice_append_slice)
  finally have c: "concat (map snd ?segs) = slice text l0 e" .
  from Cons.prems(5) m have r: "preprocess_loop text ms (?segs, e) = (segs', lst')" by simp
  from Cons.prems(3) o have le: "l0 \<le> e" by simp
  from Cons.IH [OF o(4) Cons.prems(2) le c r] o show ?case by simp
qed

text \<open>
  C4. Concatenating the texts of the segments that \<open>preprocess_text\<close> returns, in the
  order returned, gives back the input text, for every input text: the segments are a
  lossless partition of the document in document order.
\<close>

theorem preprocess_text_lossless:
  "concat (map snd (preprocess_text text)) = text"
proof -
  obtain segs lst where r: "preprocess_loop text (code_pattern_finditer 0 text) ([], 0) = (segs, lst)"
    by (cases "preprocess_loop text (code_pattern_finditer 0 text) ([], 0)")
  have o: "ordered_matches (length text) 0 (code_pattern_finditer 0 text)"
    by (rule finditer_ordered) simp
  have "concat (map snd ([] :: segment list)) = slice text 0 0" by (simp add: slice_def)
  from preprocess_loop_concat [OF o refl le_refl this r]
  have c: "concat (map snd segs) = slice text 0 lst" and b: "lst \<le> length text" by simp_all
  show ?thesis
  proof (cases "lst < length text")
    case True
    with r c show ?thesis by (simp add: preprocess_text_def slice_def)
  next
    case False
    with b have "lst = length text" by simp
    with r c show ?thesis by (simp add: preprocess_text_def slice_def)
  qed
qed

section \<open>The unit stream and the groups of units\<close>

fun units_of :: "(string \<Rightarrow> string list) option \<Rightarrow> segment list \<Rightarrow> segment list option" where
  "units_of nlp [] = Some []"
| "units_of nlp ((segment_type, segment) # rest) =
     (if segment_type = Code then map_option ((#) (Code, segment)) (units_of nlp rest)
      else
        (case split_into_sentences nlp segment None of
           None \<Rightarrow> None
         | Some sentences \<Rightarrow> map_option ((@) (map (Pair Text) sentences)) (units_of nlp rest)))"

definition unit_step ::
  "'tok tokenizer \<Rightarrow> int \<Rightarrow> int \<Rightarrow> segment \<Rightarrow> chunker_state \<Rightarrow> error + chunker_state" where
  "unit_step tok max_tokens overlap_tokens u st =
     (if fst u = Code then code_step tok max_tokens (snd u) st
      else sentence_step tok max_tokens overlap_tokens (snd u) st)"

fun units_loop ::
  "'tok tokenizer \<Rightarrow> int \<Rightarrow> int \<Rightarrow> segment list \<Rightarrow> chunker_state \<Rightarrow> error + chunker_state" where
  "units_loop tok max_tokens overlap_tokens [] st = Inr st"
| "units_loop tok max_tokens overlap_tokens (u # us) st =
     (case unit_step tok max_tokens overlap_tokens u st of
        Inl e \<Rightarrow> Inl e
      | Inr st1 \<Rightarrow> units_loop tok max_tokens overlap_tokens us st1)"

lemma units_loop_append:
  "units_loop tok mx ov (us @ vs) st =
     (case units_loop tok mx ov us st of Inl e \<Rightarrow> Inl e | Inr st1 \<Rightarrow> units_loop tok mx ov vs st1)"
  by (induction us arbitrary: st) (auto split: sum.splits)

lemma sentences_loop_units:
  "sentences_loop tok mx ov ss st = units_loop tok mx ov (map (Pair Text) ss) st"
  by (induction ss arbitrary: st) (auto simp: unit_step_def split: sum.splits)

lemma segments_loop_units:
  "units_of nlp segs = Some us \<Longrightarrow>
   segments_loop nlp tok mx ov segs st = Some (units_loop tok mx ov us st)"
proof (induction segs arbitrary: us st)
  case Nil
  then show ?case by simp
next
  case (Cons sg segs)
  obtain ty s where sg: "sg = (ty, s)" by (cases sg)
  show ?case
  proof (cases "ty = Code")
    case True
    with Cons.prems sg obtain vs where vs: "units_of nlp segs = Some vs" "us = (Code, s) # vs"
      by auto
    from Cons.IH [OF vs(1)] True sg vs(2) show ?thesis
      by (simp add: unit_step_def split: sum.splits)
  next
    case False
    with Cons.prems sg obtain ss vs where
      vs: "split_into_sentences nlp s None = Some ss" "units_of nlp segs = Some vs"
          "us = map (Pair Text) ss @ vs"
      by (auto split: option.splits)
    from Cons.IH [OF vs(2)] False sg vs(1,3) show ?thesis
      by (simp add: sentences_loop_units units_loop_append split: sum.splits)
  qed
qed

lemma segments_loop_returns:
  "segments_loop nlp tok mx ov segs st = Some (Inr st') \<Longrightarrow> \<exists>us. units_of nlp segs = Some us"
proof (induction segs arbitrary: st)
  case Nil
  then show ?case by simp
next
  case (Cons sg segs)
  obtain ty s where sg: "sg = (ty, s)" by (cases sg)
  show ?case
  proof (cases "ty = Code")
    case True
    with Cons.prems sg obtain st1 where "segments_loop nlp tok mx ov segs st1 = Some (Inr st')"
      by (auto split: sum.splits)
    from Cons.IH [OF this] True sg show ?thesis by auto
  next
    case False
    with Cons.prems sg obtain ss st1 where
      "split_into_sentences nlp s None = Some ss"
      "segments_loop nlp tok mx ov segs st1 = Some (Inr st')"
      by (auto split: option.splits sum.splits)
    with Cons.IH [OF this(2)] False sg show ?thesis by auto
  qed
qed

record group =
  carry :: string
  carry_tokens :: nat
  members :: "segment list"

definition separator :: "segment_type \<Rightarrow> string" where
  "separator ty = (if ty = Code then [CHR 0x0A] else '' '')"

definition render :: "segment list \<Rightarrow> string" where
  "render us = concat (map (\<lambda>u. separator (fst u) @ snd u) us)"

definition ntok :: "'tok tokenizer \<Rightarrow> string \<Rightarrow> nat" where
  "ntok tok s = (case count_tokens tok s of Inl e \<Rightarrow> 0 | Inr n \<Rightarrow> n)"

definition group_text :: "group \<Rightarrow> string" where
  "group_text g = carry g @ render (members g)"

definition group_tokens :: "'tok tokenizer \<Rightarrow> group \<Rightarrow> nat" where
  "group_tokens tok g = carry_tokens g + sum_list (map (\<lambda>u. ntok tok (snd u)) (members g))"

definition chunk_of :: "'tok tokenizer \<Rightarrow> group \<Rightarrow> chunk" where
  "chunk_of tok g = \<lparr>chunk_text = strip (group_text g), token_count = group_tokens tok g\<rparr>"

definition link :: "'tok tokenizer \<Rightarrow> int \<Rightarrow> group \<Rightarrow> group \<Rightarrow> bool" where
  "link tok overlap_tokens g h =
     (case members h of
        [] \<Rightarrow> False
      | u # _ \<Rightarrow>
          if fst u = Code then carry h = [] \<and> carry_tokens h = 0
          else compute_overlap tok overlap_tokens (group_text g) = Inr (carry h)
             \<and> count_tokens tok (carry h) = Inr (carry_tokens h))"

fun linked :: "'tok tokenizer \<Rightarrow> int \<Rightarrow> group list \<Rightarrow> bool" where
  "linked tok overlap_tokens [] = True"
| "linked tok overlap_tokens [g] = True"
| "linked tok overlap_tokens (g # h # gs) =
     (link tok overlap_tokens g h \<and> linked tok overlap_tokens (h # gs))"

definition first_clean :: "group list \<Rightarrow> bool" where
  "first_clean gs = (case gs of [] \<Rightarrow> True | g # _ \<Rightarrow> carry g = [] \<and> carry_tokens g = 0)"

definition within_budget :: "'tok tokenizer \<Rightarrow> int \<Rightarrow> group \<Rightarrow> bool" where
  "within_budget tok max_tokens g =
     (int (group_tokens tok g) \<le> max_tokens \<or> length (members g) \<le> 1)"

definition tracks ::
  "'tok tokenizer \<Rightarrow> int \<Rightarrow> int \<Rightarrow> segment list \<Rightarrow> group list \<Rightarrow> group \<Rightarrow> chunker_state \<Rightarrow> bool" where
  "tracks tok max_tokens overlap_tokens us emitted cur st =
     (chunks st = map (chunk_of tok) emitted \<and>
      current_chunk st = group_text cur \<and>
      current_tokens st = group_tokens tok cur \<and>
      concat (map members emitted) @ members cur = us \<and>
      first_clean (emitted @ [cur]) \<and>
      linked tok overlap_tokens (emitted @ [cur]) \<and>
      list_all (\<lambda>g. members g \<noteq> []) emitted \<and>
      (members cur = [] \<longrightarrow> emitted = []) \<and>
      list_all (within_budget tok max_tokens) (emitted @ [cur]) \<and>
      list_all (\<lambda>u. \<exists>n. count_tokens tok (snd u) = Inr n) us)"

lemma linked_snoc2:
  "linked tok ov (gs @ [g, h]) = (linked tok ov (gs @ [g]) \<and> link tok ov g h)"
  by (induction gs rule: linked.induct) auto

lemma linked_last_cong:
  assumes "linked tok ov (gs @ [g])" "carry h = carry g" "carry_tokens h = carry_tokens g"
    "gs \<noteq> [] \<Longrightarrow> members g \<noteq> [] \<and> members h \<noteq> [] \<and> hd (members h) = hd (members g)"
  shows "linked tok ov (gs @ [h])"
proof (cases gs rule: rev_cases)
  case Nil
  then show ?thesis by simp
next
  case (snoc gs' p)
  with assms(4) have m: "members g \<noteq> []" "members h \<noteq> []" "hd (members h) = hd (members g)"
    by simp_all
  from assms(1) snoc have "linked tok ov (gs' @ [p])" "link tok ov p g"
    by (simp_all add: linked_snoc2)
  moreover from \<open>link tok ov p g\<close> m assms(2,3) have "link tok ov p h"
    by (cases "members g"; cases "members h") (auto simp: link_def)
  ultimately show ?thesis using snoc by (simp add: linked_snoc2)
qed

lemma first_clean_snoc: "first_clean ((gs @ [g]) @ [h]) = first_clean (gs @ [g])"
  by (cases gs) (simp_all add: first_clean_def)

lemma first_clean_last_cong:
  "first_clean (gs @ [g]) \<Longrightarrow> carry h = carry g \<Longrightarrow> carry_tokens h = carry_tokens g \<Longrightarrow>
   first_clean (gs @ [h])"
  by (cases gs) (simp_all add: first_clean_def)

lemma render_snoc: "render (us @ [u]) = render us @ separator (fst u) @ snd u"
  by (simp add: render_def)

lemma render_empty_iff: "render us = [] \<longleftrightarrow> us = []"
  by (cases us) (simp_all add: render_def separator_def)

lemma tracks_initial: "tracks tok mx ov [] [] \<lparr>carry = [], carry_tokens = 0, members = []\<rparr> initial_state"
  by (simp add: tracks_def initial_state_def group_text_def group_tokens_def render_def
      first_clean_def within_budget_def)

lemma tracks_nonempty:
  assumes "tracks tok mx ov us emitted cur st" "current_chunk st \<noteq> []"
  shows "members cur \<noteq> []"
proof
  assume e: "members cur = []"
  with assms(1) have "emitted = []" by (simp add: tracks_def)
  with assms(1) have "carry cur = []" by (simp add: tracks_def first_clean_def)
  with e assms(1) have "current_chunk st = []" by (simp add: tracks_def group_text_def render_def)
  with assms(2) show False by simp
qed

lemma tracks_append:
  assumes t: "tracks tok mx ov us emitted cur st"
    and n: "count_tokens tok (snd u) = Inr n"
    and fit: "int (current_tokens st + n) \<le> mx \<or> current_chunk st = []"
    and c: "chunks st' = chunks st"
    and x: "current_chunk st' = current_chunk st @ separator (fst u) @ snd u"
    and k: "current_tokens st' = current_tokens st + n"
  shows "tracks tok mx ov (us @ [u]) emitted (cur\<lparr>members := members cur @ [u]\<rparr>) st'"
proof -
  let ?cur = "cur\<lparr>members := members cur @ [u]\<rparr>"
  from n have nt: "ntok tok (snd u) = n" by (simp add: ntok_def)
  have 1: "chunks st' = map (chunk_of tok) emitted" using t c by (simp add: tracks_def)
  have 2: "current_chunk st' = group_text ?cur"
    using t x by (simp add: tracks_def group_text_def render_snoc)
  have 3: "current_tokens st' = group_tokens tok ?cur"
    using t k nt by (simp add: tracks_def group_tokens_def)
  have 4: "concat (map members emitted) @ members ?cur = us @ [u]"
    using t by (auto simp: tracks_def)
  have 5: "first_clean (emitted @ [?cur])"
    using t by (auto simp: tracks_def intro: first_clean_last_cong)
  have 6: "linked tok ov (emitted @ [?cur])"
  proof (rule linked_last_cong [where g = cur])
    show "linked tok ov (emitted @ [cur])" using t by (simp add: tracks_def)
    show "emitted \<noteq> [] \<Longrightarrow> members cur \<noteq> [] \<and> members ?cur \<noteq> [] \<and> hd (members ?cur) = hd (members cur)"
      using t by (auto simp: tracks_def)
  qed simp_all
  have 7: "list_all (\<lambda>g. members g \<noteq> []) emitted" using t by (simp add: tracks_def)
  have 8: "members ?cur = [] \<longrightarrow> emitted = []" by simp
  have "within_budget tok mx ?cur"
  proof (cases "current_chunk st = []")
    case True
    have "members cur = []"
    proof (rule ccontr)
      assume "members cur \<noteq> []"
      then have "render (members cur) \<noteq> []" by (simp add: render_empty_iff)
      with t True show False by (simp add: tracks_def group_text_def)
    qed
    then show ?thesis by (simp add: within_budget_def)
  next
    case False
    with fit have "int (current_tokens st + n) \<le> mx" by simp
    with 3 k show ?thesis by (simp add: within_budget_def)
  qed
  then have 9: "list_all (within_budget tok mx) (emitted @ [?cur])"
    using t by (simp add: tracks_def)
  have 10: "list_all (\<lambda>u. \<exists>n. count_tokens tok (snd u) = Inr n) (us @ [u])"
    using t n by (simp add: tracks_def)
  from 1 2 3 4 5 6 7 8 9 10 show ?thesis unfolding tracks_def by blast
qed

lemma tracks_flush:
  assumes t: "tracks tok mx ov us emitted cur st"
    and ne: "current_chunk st \<noteq> []"
    and n: "count_tokens tok (snd u) = Inr n"
    and l: "link tok ov cur \<lparr>carry = c, carry_tokens = m, members = [u]\<rparr>"
    and c: "chunks st' = chunks st @ [emit st]"
    and x: "current_chunk st' = c @ separator (fst u) @ snd u"
    and k: "current_tokens st' = m + n"
  shows "tracks tok mx ov (us @ [u]) (emitted @ [cur]) \<lparr>carry = c, carry_tokens = m, members = [u]\<rparr> st'"
proof -
  let ?new = "\<lparr>carry = c, carry_tokens = m, members = [u]\<rparr>"
  from n have nt: "ntok tok (snd u) = n" by (simp add: ntok_def)
  from tracks_nonempty [OF t ne] have mc: "members cur \<noteq> []" .
  have "emit st = chunk_of tok cur" using t by (simp add: tracks_def emit_def chunk_of_def)
  then have 1: "chunks st' = map (chunk_of tok) (emitted @ [cur])" using t c by (simp add: tracks_def)
  have 2: "current_chunk st' = group_text ?new"
    using x by (simp add: group_text_def render_def)
  have 3: "current_tokens st' = group_tokens tok ?new"
    using k nt by (simp add: group_tokens_def)
  have 4: "concat (map members (emitted @ [cur])) @ members ?new = us @ [u]"
    using t by (auto simp: tracks_def)
  have 5: "first_clean ((emitted @ [cur]) @ [?new])"
    using t unfolding first_clean_snoc by (simp add: tracks_def)
  have 6: "linked tok ov ((emitted @ [cur]) @ [?new])"
    using t l by (simp add: tracks_def linked_snoc2)
  have 7: "list_all (\<lambda>g. members g \<noteq> []) (emitted @ [cur])" using t mc by (simp add: tracks_def)
  have 8: "members ?new = [] \<longrightarrow> emitted @ [cur] = []" by simp
  have 9: "list_all (within_budget tok mx) ((emitted @ [cur]) @ [?new])"
    using t by (simp add: tracks_def within_budget_def)
  have 10: "list_all (\<lambda>u. \<exists>n. count_tokens tok (snd u) = Inr n) (us @ [u])"
    using t n by (simp add: tracks_def)
  from 1 2 3 4 5 6 7 8 9 10 show ?thesis unfolding tracks_def by blast
qed

lemma code_step_tracks:
  assumes t: "tracks tok mx ov us emitted cur st"
    and s: "code_step tok mx seg st = Inr st'"
  shows "\<exists>emitted' cur'. tracks tok mx ov (us @ [(Code, seg)]) emitted' cur' st'"
proof -
  from s obtain n where n: "count_tokens tok seg = Inr n"
    by (auto simp: code_step_def split: sum.splits)
  show ?thesis
  proof (cases "int (current_tokens st + n) > mx \<and> current_chunk st \<noteq> []")
    case True
    with s n have st': "st' = st\<lparr>chunks := chunks st @ [emit st], current_chunk := [] @ [CHR 0x0A] @ seg,
        current_tokens := 0 + n\<rparr>"
      by (auto simp: code_step_def)
    have "tracks tok mx ov (us @ [(Code, seg)]) (emitted @ [cur])
            \<lparr>carry = [], carry_tokens = 0, members = [(Code, seg)]\<rparr> st'"
      by (rule tracks_flush [OF t _ _ _ _ _ _, where n = n])
         (use True n st' in \<open>simp_all add: link_def separator_def\<close>)
    then show ?thesis by blast
  next
    case False
    with s n have st': "st' = st\<lparr>current_chunk := current_chunk st @ [CHR 0x0A] @ seg,
        current_tokens := current_tokens st + n\<rparr>"
      by (auto simp: code_step_def)
    have "tracks tok mx ov (us @ [(Code, seg)]) emitted (cur\<lparr>members := members cur @ [(Code, seg)]\<rparr>) st'"
      by (rule tracks_append [OF t, where n = n])
         (use False n st' in \<open>auto simp: separator_def\<close>)
    then show ?thesis by blast
  qed
qed

lemma sentence_step_tracks:
  assumes t: "tracks tok mx ov us emitted cur st"
    and s: "sentence_step tok mx ov sen st = Inr st'"
  shows "\<exists>emitted' cur'. tracks tok mx ov (us @ [(Text, sen)]) emitted' cur' st'"
proof -
  from s obtain n where n: "count_tokens tok sen = Inr n"
    by (auto simp: sentence_step_def split: sum.splits)
  show ?thesis
  proof (cases "int (current_tokens st + n) > mx \<and> current_chunk st \<noteq> []")
    case True
    with s n obtain st1 where f: "flush_with_overlap tok ov st = Inr st1"
      and st': "st' = st1\<lparr>current_chunk := current_chunk st1 @ '' '' @ sen,
                         current_tokens := current_tokens st1 + n\<rparr>"
      by (auto simp: sentence_step_def split: sum.splits)
    from f obtain c m where c: "compute_overlap tok ov (current_chunk st) = Inr c"
      and m: "count_tokens tok c = Inr m"
      and st1: "st1 = st\<lparr>overlap_text := c, chunks := chunks st @ [emit st],
                        current_chunk := c, current_tokens := m\<rparr>"
      by (auto simp: flush_with_overlap_def split: sum.splits)
    from t have g: "current_chunk st = group_text cur" by (simp add: tracks_def)
    have "tracks tok mx ov (us @ [(Text, sen)]) (emitted @ [cur])
            \<lparr>carry = c, carry_tokens = m, members = [(Text, sen)]\<rparr> st'"
      by (rule tracks_flush [OF t _ _ _ _ _ _, where n = n])
         (use True n st' st1 c m g in \<open>simp_all add: link_def separator_def\<close>)
    then show ?thesis by blast
  next
    case False
    with s n have st': "st' = st\<lparr>current_chunk := current_chunk st @ '' '' @ sen,
        current_tokens := current_tokens st + n\<rparr>"
      by (auto simp: sentence_step_def)
    have "tracks tok mx ov (us @ [(Text, sen)]) emitted (cur\<lparr>members := members cur @ [(Text, sen)]\<rparr>) st'"
      by (rule tracks_append [OF t, where n = n])
         (use False n st' in \<open>auto simp: separator_def\<close>)
    then show ?thesis by blast
  qed
qed

lemma unit_step_tracks:
  assumes "tracks tok mx ov us emitted cur st" "unit_step tok mx ov u st = Inr st'"
  shows "\<exists>emitted' cur'. tracks tok mx ov (us @ [u]) emitted' cur' st'"
proof (cases u)
  case (Pair ty s)
  show ?thesis
  proof (cases ty)
    case Text
    with Pair assms(2) have "sentence_step tok mx ov s st = Inr st'" by (simp add: unit_step_def)
    from sentence_step_tracks [OF assms(1) this] Pair Text show ?thesis by simp
  next
    case Code
    with Pair assms(2) have "code_step tok mx s st = Inr st'" by (simp add: unit_step_def)
    from code_step_tracks [OF assms(1) this] Pair Code show ?thesis by simp
  qed
qed

lemma units_loop_tracks:
  "tracks tok mx ov us emitted cur st \<Longrightarrow> units_loop tok mx ov vs st = Inr st' \<Longrightarrow>
   \<exists>emitted' cur'. tracks tok mx ov (us @ vs) emitted' cur' st'"
proof (induction vs arbitrary: us emitted cur st)
  case Nil
  then show ?case by auto
next
  case (Cons v vs)
  from Cons.prems(2) obtain st1 where s1: "unit_step tok mx ov v st = Inr st1"
    and r: "units_loop tok mx ov vs st1 = Inr st'"
    by (auto split: sum.splits)
  from unit_step_tracks [OF Cons.prems(1) s1] obtain d1 c1 where
    "tracks tok mx ov (us @ [v]) d1 c1 st1" by blast
  from Cons.IH [OF this r] show ?case by simp
qed

section \<open>Trimming keeps a unit whole\<close>

lemma lstrip_keeps:
  assumes "u \<noteq> []" "\<not> is_space (hd u)"
  shows "\<exists>pre. lstrip (a @ u @ b) = pre @ u @ b"
proof (cases "\<forall>x\<in>set a. is_space x")
  case True
  from assms have "dropWhile is_space (u @ b) = u @ b" by (cases u) simp_all
  with True have "lstrip (a @ u @ b) = [] @ u @ b" by (simp add: lstrip_def dropWhile_append)
  then show ?thesis by blast
next
  case False
  then obtain x where "x \<in> set a" "\<not> is_space x" by blast
  then have "lstrip (a @ (u @ b)) = dropWhile is_space a @ (u @ b)"
    unfolding lstrip_def by (rule dropWhile_append1)
  then show ?thesis by blast
qed

lemma rstrip_keeps:
  assumes "u \<noteq> []" "\<not> is_space (last u)"
  shows "\<exists>post. rstrip (a @ u @ b) = a @ u @ post"
proof (cases "\<forall>x\<in>set b. is_space x")
  case True
  from assms have "dropWhile is_space (rev u @ rev a) = rev u @ rev a"
    by (cases u rule: rev_cases) simp_all
  with True have "rstrip (a @ u @ b) = a @ u @ []" by (simp add: rstrip_def dropWhile_append)
  then show ?thesis by blast
next
  case False
  then obtain x where "x \<in> set (rev b)" "\<not> is_space x" by auto
  then have "dropWhile is_space (rev b @ (rev u @ rev a)) = dropWhile is_space (rev b) @ (rev u @ rev a)"
    by (rule dropWhile_append1)
  then have "rstrip (a @ u @ b) = a @ u @ rev (dropWhile is_space (rev b))"
    by (simp add: rstrip_def)
  then show ?thesis by blast
qed

lemma strip_keeps:
  assumes "u \<noteq> []" "\<not> is_space (hd u)" "\<not> is_space (last u)"
  shows "\<exists>pre post. strip (a @ u @ b) = pre @ u @ post"
proof -
  from rstrip_keeps [OF assms(1,3)] obtain post where "rstrip (a @ u @ b) = a @ u @ post" by blast
  moreover from lstrip_keeps [OF assms(1,2)] obtain pre where "lstrip (a @ u @ post) = pre @ u @ post"
    by blast
  ultimately show ?thesis by (auto simp: strip_def)
qed

lemma strip_ends:
  assumes "strip s \<noteq> []"
  shows "\<not> is_space (hd (strip s))" "\<not> is_space (last (strip s))"
proof -
  from assms show "\<not> is_space (hd (strip s))"
    unfolding strip_def lstrip_def by (rule hd_dropWhile)
  from assms have r: "rstrip s \<noteq> []" by (auto simp: strip_def lstrip_def)
  then have d: "dropWhile is_space (rev s) \<noteq> []" by (simp add: rstrip_def)
  have "last (rstrip s) = hd (dropWhile is_space (rev s))"
    using d by (simp add: rstrip_def last_rev)
  with hd_dropWhile [OF d] have l: "\<not> is_space (last (rstrip s))" by simp
  obtain ys where ys: "rstrip s = takeWhile is_space (rstrip s) @ strip s"
    by (simp add: strip_def lstrip_def)
  from assms have "last (takeWhile is_space (rstrip s) @ strip s) = last (strip s)" by simp
  with ys l show "\<not> is_space (last (strip s))" by simp
qed

lemma strip_fixed:
  assumes "s \<noteq> []" "\<not> is_space (hd s)" "\<not> is_space (last s)"
  shows "strip s = s"
proof -
  from assms have "dropWhile is_space (rev s) = rev s" by (cases s rule: rev_cases) simp_all
  then have "rstrip s = s" by (simp add: rstrip_def)
  moreover from assms have "dropWhile is_space s = s" by (cases s) simp_all
  ultimately show ?thesis by (simp add: strip_def lstrip_def)
qed

lemma strip_idem: "strip (strip s) = strip s"
proof (cases "strip s = []")
  case True
  have "strip [] = []" by (simp add: strip_def lstrip_def rstrip_def)
  with True show ?thesis by simp
next
  case False
  from strip_fixed [OF False strip_ends [OF False]] show ?thesis .
qed

lemma strip_fixed_ends:
  assumes "strip s = s" "s \<noteq> []"
  shows "\<not> is_space (hd s) \<and> \<not> is_space (last s)"
  using strip_ends [of s] assms by simp

lemma render_member:
  assumes "u \<in> set us"
  shows "\<exists>x y. render us = x @ snd u @ y"
proof -
  from assms obtain xs ys where "us = xs @ u # ys" by (auto dest: split_list)
  then have "render us = (render xs @ separator (fst u)) @ snd u @ render ys"
    by (simp add: render_def)
  then show ?thesis by blast
qed

lemma member_whole:
  assumes "u \<in> set (members g)" "strip (snd u) = snd u" "snd u \<noteq> []"
  shows "\<exists>pre post. strip (group_text g) = pre @ snd u @ post"
proof -
  from render_member [OF assms(1)] obtain x y where "render (members g) = x @ snd u @ y" by blast
  then have "group_text g = (carry g @ x) @ snd u @ y" by (simp add: group_text_def)
  moreover from strip_fixed_ends [OF assms(2,3)]
  have "\<not> is_space (hd (snd u))" "\<not> is_space (last (snd u))" by simp_all
  from strip_keeps [OF assms(3) this] obtain pre post where
    "strip ((carry g @ x) @ snd u @ y) = pre @ snd u @ post" by blast
  ultimately show ?thesis by auto
qed

lemma strip_empty_iff: "strip s = [] \<longleftrightarrow> (\<forall>x\<in>set s. is_space x)"
proof
  assume e: "strip s = []"
  then have "\<forall>x\<in>set (rstrip s). is_space x"
    by (simp add: strip_def lstrip_def dropWhile_eq_Nil_conv)
  then have a: "\<forall>x\<in>set (dropWhile is_space (rev s)). is_space x" by (simp add: rstrip_def)
  have "dropWhile is_space (rev s) = []"
  proof (rule ccontr)
    assume n: "dropWhile is_space (rev s) \<noteq> []"
    from hd_dropWhile [OF n] a n show False by (meson hd_in_set)
  qed
  then show "\<forall>x\<in>set s. is_space x" by (simp add: dropWhile_eq_Nil_conv)
next
  assume "\<forall>x\<in>set s. is_space x"
  then show "strip s = []" by (auto simp: strip_def lstrip_def rstrip_def dest: set_dropWhileD)
qed

lemma member_nonblank:
  assumes "u \<in> set (members g)" "strip (snd u) \<noteq> []"
  shows "strip (group_text g) \<noteq> []"
proof -
  from render_member [OF assms(1)] obtain x y where "render (members g) = x @ snd u @ y" by blast
  then have "set (snd u) \<subseteq> set (group_text g)" by (auto simp: group_text_def)
  with assms(2) show ?thesis unfolding strip_empty_iff by blast
qed

section \<open>The chunks of a run, unit by unit\<close>

lemma linked_nth:
  "linked tok ov gs \<Longrightarrow> Suc i < length gs \<Longrightarrow> link tok ov (gs ! i) (gs ! Suc i)"
proof (induction gs arbitrary: i rule: linked.induct)
  case (3 tok ov g h gs)
  then show ?case by (cases i) simp_all
qed simp_all

lemma chunk_segments_structure:
  assumes "chunk_segments nlp tok segs mx ov = Some (Inr cs)"
  shows "\<exists>us gs. units_of nlp segs = Some us \<and>
           concat (map members gs) = us \<and>
           length cs \<le> length gs \<and>
           (\<forall>i<length cs. cs ! i = chunk_of tok (gs ! i) \<and> members (gs ! i) \<noteq> []) \<and>
           (\<forall>i<length gs. within_budget tok mx (gs ! i)) \<and>
           (\<forall>i<length gs. length cs \<le> i \<longrightarrow> strip (group_text (gs ! i)) = []) \<and>
           first_clean gs \<and> linked tok ov gs \<and>
           list_all (\<lambda>u. \<exists>n. count_tokens tok (snd u) = Inr n) us"
proof -
  from assms obtain st where
    sl: "segments_loop nlp tok mx ov segs initial_state = Some (Inr st)" and
    cs: "cs = (if strip (current_chunk st) \<noteq> [] then chunks st @ [emit st] else chunks st)"
    by (auto simp: chunk_segments_def split: option.splits sum.splits)
  from segments_loop_returns [OF sl] obtain us where us: "units_of nlp segs = Some us" by blast
  from segments_loop_units [OF us, of tok mx ov initial_state] sl
  have "units_loop tok mx ov us initial_state = Inr st" by simp
  from units_loop_tracks [OF tracks_initial this] obtain emitted cur where
    t: "tracks tok mx ov us emitted cur st" by auto
  let ?gs = "emitted @ [cur]"
  from t have e: "emit st = chunk_of tok cur" "current_chunk st = group_text cur"
    "chunks st = map (chunk_of tok) emitted"
    by (simp_all add: tracks_def emit_def chunk_of_def)
  have 1: "concat (map members ?gs) = us" using t by (simp add: tracks_def)
  have 2: "length cs \<le> length ?gs" using cs e by simp
  have 3: "\<forall>i<length cs. cs ! i = chunk_of tok (?gs ! i) \<and> members (?gs ! i) \<noteq> []"
  proof (intro allI impI)
    fix i assume i: "i < length cs"
    show "cs ! i = chunk_of tok (?gs ! i) \<and> members (?gs ! i) \<noteq> []"
    proof (cases "i < length emitted")
      case True
      moreover from t have "list_all (\<lambda>g. members g \<noteq> []) emitted" by (simp add: tracks_def)
      ultimately have "members (emitted ! i) \<noteq> []" by (simp add: list_all_length)
      with True cs e show ?thesis by (simp add: nth_append)
    next
      case False
      with i cs e have ne: "strip (current_chunk st) \<noteq> []" and ie: "i = length emitted"
        by (auto split: if_splits)
      have "current_chunk st \<noteq> []"
      proof
        assume "current_chunk st = []"
        then have "strip (current_chunk st) = []" by (simp add: strip_def lstrip_def rstrip_def)
        with ne show False by simp
      qed
      from tracks_nonempty [OF t this] ne ie cs e show ?thesis by (simp add: nth_append)
    qed
  qed
  have 4: "\<forall>i<length ?gs. within_budget tok mx (?gs ! i)"
    using t by (simp add: tracks_def list_all_length)
  have 5: "\<forall>i<length ?gs. length cs \<le> i \<longrightarrow> strip (group_text (?gs ! i)) = []"
  proof (intro allI impI)
    fix i assume "i < length ?gs" "length cs \<le> i"
    with cs e have "i = length emitted \<and> strip (current_chunk st) = []"
      by (auto split: if_splits)
    with e show "strip (group_text (?gs ! i)) = []" by simp
  qed
  from t have 6: "first_clean ?gs" "linked tok ov ?gs"
    "list_all (\<lambda>u. \<exists>n. count_tokens tok (snd u) = Inr n) us"
    by (simp_all add: tracks_def)
  from us 1 2 3 4 5 6 show ?thesis by blast
qed

section \<open>Properties of the chunks\<close>

text \<open>The definitions that a run on a concrete input unfolds.\<close>

lemmas ev = chunk_segments_def split_into_sentences_def window_loop.simps window_end_def slice_def
    sentence_step_def code_step_def flush_with_overlap_def compute_overlap_def count_tokens_def char_tokenizer_def whole_sentence_def initial_state_def emit_def
    strip_def lstrip_def rstrip_def is_space_def last_tokens_def










text \<open>
  C2, as amended. In every run with \<open>overlap_tokens > 0\<close> that returns chunks, a
  chunk \<open>i > 0\<close> whose first unit is a sentence starts, before it is trimmed, with the
  overlap text: the decoding of the last \<open>min(overlap_tokens, n)\<close> tokens of the
  encoding of the untrimmed text of chunk \<open>i - 1\<close>, \<open>n\<close> being the length of that
  encoding. The stored texts are the trimmed ones.
\<close>

theorem sentence_flush_carries_overlap:
  assumes "chunk_segments nlp tok segs max_tokens overlap_tokens = Some (Inr cs)"
    and "0 < overlap_tokens"
  shows "\<exists>us (gs :: group list). units_of nlp segs = Some us \<and> concat (map members gs) = us \<and>
           length cs \<le> length gs \<and>
           (\<forall>i<length cs.
              chunk_text (cs ! i) = strip (carry (gs ! i) @ render (members (gs ! i))) \<and>
              members (gs ! i) \<noteq> [] \<and>
              (0 < i \<longrightarrow> fst (hd (members (gs ! i))) = Text \<longrightarrow>
                 (\<exists>ts. encode tok (carry (gs ! (i - 1)) @ render (members (gs ! (i - 1)))) = Inr ts \<and>
                    carry (gs ! i) =
                      decode tok (last_tokens (nat (min overlap_tokens (int (length ts)))) ts))))"
proof -
  from chunk_segments_structure [OF assms(1)] obtain us and gs :: "group list" where
    s: "units_of nlp segs = Some us" "concat (map members gs) = us" "length cs \<le> length gs"
      "\<forall>i<length cs. cs ! i = chunk_of tok (gs ! i) \<and> members (gs ! i) \<noteq> []"
      "linked tok overlap_tokens gs"
    by blast
  have "\<forall>i<length cs.
          chunk_text (cs ! i) = strip (carry (gs ! i) @ render (members (gs ! i))) \<and>
          members (gs ! i) \<noteq> [] \<and>
          (0 < i \<longrightarrow> fst (hd (members (gs ! i))) = Text \<longrightarrow>
             (\<exists>ts. encode tok (carry (gs ! (i - 1)) @ render (members (gs ! (i - 1)))) = Inr ts \<and>
                carry (gs ! i) =
                  decode tok (last_tokens (nat (min overlap_tokens (int (length ts)))) ts)))"
  proof (intro allI impI conjI)
    fix i assume i: "i < length cs"
    with s(4) show "chunk_text (cs ! i) = strip (carry (gs ! i) @ render (members (gs ! i)))"
      by (simp add: chunk_of_def group_text_def)
    from s(4) i show "members (gs ! i) \<noteq> []" by simp
  next
    fix i assume i: "i < length cs" and p: "0 < i" and t: "fst (hd (members (gs ! i))) = Text"
    from p obtain j where j: "i = Suc j" by (cases i) auto
    with i s(3) have "Suc j < length gs" by simp
    from linked_nth [OF s(5) this] j have "link tok overlap_tokens (gs ! (i - 1)) (gs ! i)" by simp
    with t have "compute_overlap tok overlap_tokens (group_text (gs ! (i - 1))) = Inr (carry (gs ! i))"
      by (auto simp: link_def split: list.splits if_splits)
    with assms(2)
    show "\<exists>ts. encode tok (carry (gs ! (i - 1)) @ render (members (gs ! (i - 1)))) = Inr ts \<and>
            carry (gs ! i) = decode tok (last_tokens (nat (min overlap_tokens (int (length ts)))) ts)"
      by (auto simp: compute_overlap_def group_text_def split: sum.splits)
  qed
  with s(1,2,3) show ?thesis by blast
qed

lemma run_three_sentences:
  "chunk_segments (Some whole_sentence) char_tokenizer
     [(Text, ''ab''), (Text, ''cd''), (Text, ''ef'')] 5 3 =
     Some (Inr [\<lparr>chunk_text = ''ab cd'', token_count = 4\<rparr>,
                \<lparr>chunk_text = ''cd ef'', token_count = 5\<rparr>])"
  by (simp add: ev)

theorem sentence_flush_carries_overlap_witness:
  "chunk_segments (Some whole_sentence) char_tokenizer
     [(Text, ''ab''), (Text, ''cd''), (Text, ''ef'')] 5 3 =
     Some (Inr [\<lparr>chunk_text = ''ab cd'', token_count = 4\<rparr>,
                \<lparr>chunk_text = ''cd ef'', token_count = 5\<rparr>]) \<and>
   (0 :: int) < 3 \<and>
   (\<exists>us (gs :: group list).
      units_of (Some whole_sentence) [(Text, ''ab''), (Text, ''cd''), (Text, ''ef'')] = Some us \<and>
      concat (map members gs) = us \<and>
      length [\<lparr>chunk_text = ''ab cd'', token_count = 4\<rparr>,
              \<lparr>chunk_text = ''cd ef'', token_count = 5\<rparr>] \<le> length gs \<and>
      (\<forall>i<length [\<lparr>chunk_text = ''ab cd'', token_count = 4\<rparr>,
                   \<lparr>chunk_text = ''cd ef'', token_count = 5\<rparr>].
         chunk_text ([\<lparr>chunk_text = ''ab cd'', token_count = 4\<rparr>,
                      \<lparr>chunk_text = ''cd ef'', token_count = 5\<rparr>] ! i) =
           strip (carry (gs ! i) @ render (members (gs ! i))) \<and>
         members (gs ! i) \<noteq> [] \<and>
         (0 < i \<longrightarrow> fst (hd (members (gs ! i))) = Text \<longrightarrow>
            (\<exists>ts. encode char_tokenizer (carry (gs ! (i - 1)) @ render (members (gs ! (i - 1)))) =
                    Inr ts \<and>
               carry (gs ! i) =
                 decode char_tokenizer (last_tokens (nat (min 3 (int (length ts)))) ts)))))"
proof -
  have p: "(0 :: int) < 3" by simp
  from sentence_flush_carries_overlap [OF run_three_sentences p] run_three_sentences p
  show ?thesis by blast
qed

text \<open>
  C2 as stated fails. Three sentences of two tokens each, with \<open>max_tokens = 5\<close> and
  \<open>overlap_tokens = 3\<close>, give the chunks \<open>ab cd\<close> and \<open>cd ef\<close>: the carried text is
  \<open>" cd"\<close>, and trimming removes its space. The first three tokens of the second chunk
  decode to \<open>"cd "\<close>, the last three of the first chunk to \<open>" cd"\<close>.
\<close>

theorem overlap_counterexample:
  "chunk_segments (Some whole_sentence) char_tokenizer
     [(Text, ''ab''), (Text, ''cd''), (Text, ''ef'')] 5 3 =
     Some (Inr [\<lparr>chunk_text = ''ab cd'', token_count = 4\<rparr>,
                \<lparr>chunk_text = ''cd ef'', token_count = 5\<rparr>]) \<and>
   encode char_tokenizer ''ab cd'' = Inr ''ab cd'' \<and>
   encode char_tokenizer ''cd ef'' = Inr ''cd ef'' \<and>
   nat (min 3 (int (length ''ab cd''))) = 3 \<and>
   decode char_tokenizer (take 3 ''cd ef'') = ''cd '' \<and>
   decode char_tokenizer (last_tokens 3 ''ab cd'') = '' cd''"
  by (simp add: ev)

text \<open>
  A flush that a verbatim segment triggers carries nothing: the chunk that follows
  starts with the segment itself.
\<close>

lemma verbatim_flush_carries_nothing:
  "chunk_segments (Some whole_sentence) char_tokenizer
     [(Text, ''ab''), (Text, ''cd''), (Code, ''```x```'')] 5 3 =
     Some (Inr [\<lparr>chunk_text = ''ab cd'', token_count = 4\<rparr>,
                \<lparr>chunk_text = ''```x```'', token_count = 7\<rparr>])"
  by (simp add: ev)

end
